theory Spec2Isabelle
  imports Main "HOL-Library.Word"
begin

unbundle bit_operations_syntax

section \<open>The codec base of tinyber (codec.py)\<close>

text \<open>
  The module is Python 2: a \<open>str\<close> is a sequence of bytes, \<open>ord\<close> and \<open>chr\<close> convert
  between a one-byte string and an integer in \<open>range(256)\<close>, integers are unbounded, and
  \<open>>>\<close>, \<open><<\<close>, \<open>&\<close>, \<open>|\<close> act on the two's complement reading of an integer, as
  \<open>drop_bit\<close>, \<open>push_bit\<close>, \<open>AND\<close>, \<open>OR\<close> do on \<open>int\<close>.

  Every exception is a value. Besides the five exception classes the module declares,
  the interpreter's own \<open>AttributeError\<close>, \<open>IndexError\<close> and \<open>ValueError\<close> can leave
  its functions. The arguments an exception is built with are not kept.
\<close>

datatype error =
    IndefiniteLength
  | ElementTooLarge
  | Underflow
  | UnexpectedType
  | ConstraintViolation
  | AttributeError
  | IndexError
  | ValueError

type_synonym byte = "8 word"

definition py_ord :: "byte \<Rightarrow> int" where
  "py_ord c = uint c"

definition py_chr :: "int \<Rightarrow> error + byte" where
  \<comment> \<open>\<open>chr(i)\<close> raises ValueError outside \<open>range(256)\<close>.\<close>
  "py_chr i = (if 0 \<le> i \<and> i < 256 then Inr (word_of_int i) else Inl ValueError)"

definition getitem :: "byte list \<Rightarrow> int \<Rightarrow> error + byte" where
  \<comment> \<open>\<open>s[i]\<close>: an index below zero counts from the end, an index out of range raises.\<close>
  "getitem s i =
     (if 0 \<le> i \<and> i < int (length s) then Inr (s ! nat i)
      else if i < 0 \<and> - int (length s) \<le> i then Inr (s ! nat (i + int (length s)))
      else Inl IndexError)"

definition slice_index :: "nat \<Rightarrow> int \<Rightarrow> nat" where
  \<comment> \<open>How a slice bound is read against a sequence of length \<open>n\<close>.\<close>
  "slice_index n i = (if i < 0 then nat (i + int n) else min n (nat i))"

definition getslice :: "byte list \<Rightarrow> int \<Rightarrow> int \<Rightarrow> byte list" where
  \<comment> \<open>\<open>s[i:j]\<close>; it never raises.\<close>
  "getslice s i j =
     (let lo = slice_index (length s) i; hi = slice_index (length s) j
      in take (hi - lo) (drop lo s))"

subsection \<open>FLAG and TAG\<close>

definition FLAG :: "string \<Rightarrow> error + int" where
  \<comment> \<open>Attribute lookup on class \<open>FLAG\<close>: a name the class does not have raises.\<close>
  "FLAG name =
     (case map_of [(''UNIVERSAL'', 0x00), (''STRUCTURED'', 0x20),
                   (''APPLICATION'', 0x40), (''CONTEXT'', 0x80)] name of
        None \<Rightarrow> Inl AttributeError
      | Some v \<Rightarrow> Inr v)"

definition TAG_BOOLEAN :: int where "TAG_BOOLEAN = 0x01"
definition TAG_INTEGER :: int where "TAG_INTEGER = 0x02"
definition TAG_BITSTRING :: int where "TAG_BITSTRING = 0x03"
definition TAG_OCTETSTRING :: int where "TAG_OCTETSTRING = 0x04"
definition TAG_NULLTAG :: int where "TAG_NULLTAG = 0x05"
definition TAG_OID :: int where "TAG_OID = 0x06"
definition TAG_ENUMERATED :: int where "TAG_ENUMERATED = 0x0A"
definition TAG_UTF8STRING :: int where "TAG_UTF8STRING = 0x0C"
definition TAG_SEQUENCE :: int where "TAG_SEQUENCE = 0x10 OR 0x20"
definition TAG_SET :: int where "TAG_SET = 0x11 OR 0x20"

subsection \<open>Buf, the reader\<close>

text \<open>
  A method of \<open>Buf\<close> takes the reader and returns what the call returns or raises,
  together with the reader as the call leaves it. The field \<open>end\<close> is \<open>end_pos\<close> here.
\<close>

record Buf =
  data :: "byte list"
  pos :: int
  end_pos :: int

definition Buf_init :: "byte list \<Rightarrow> Buf" where
  \<comment> \<open>\<open>Buf(data)\<close>, with the defaults \<open>pos=0\<close>, \<open>end=None\<close>.\<close>
  "Buf_init s = \<lparr>data = s, pos = 0, end_pos = int (length s)\<rparr>"

definition Buf_inv :: "Buf \<Rightarrow> bool" where
  "Buf_inv b = (0 \<le> pos b \<and> pos b \<le> end_pos b \<and> end_pos b \<le> int (length (data b)))"

definition pop_byte :: "Buf \<Rightarrow> (error + int) \<times> Buf" where
  "pop_byte b =
     (if pos b + 1 > end_pos b then (Inl Underflow, b)
      else (case getitem (data b) (pos b) of
              Inl e \<Rightarrow> (Inl e, b)
            | Inr c \<Rightarrow> (Inr (py_ord c), b\<lparr>pos := pos b + 1\<rparr>)))"

definition pop :: "int \<Rightarrow> Buf \<Rightarrow> (error + Buf) \<times> Buf" where
  "pop nbytes b =
     (if pos b + nbytes > end_pos b then (Inl Underflow, b)
      else (Inr \<lparr>data = data b, pos = pos b, end_pos = pos b + nbytes\<rparr>,
            b\<lparr>pos := pos b + nbytes\<rparr>))"

definition pop_bytes :: "int \<Rightarrow> Buf \<Rightarrow> (error + byte list) \<times> Buf" where
  "pop_bytes nbytes b =
     (if pos b + nbytes > end_pos b then (Inl Underflow, b)
      else (Inr (getslice (data b) (pos b) (pos b + nbytes)),
            b\<lparr>pos := pos b + nbytes\<rparr>))"

definition Buf_done :: "Buf \<Rightarrow> bool" where
  "Buf_done b = (pos b = end_pos b)"

definition same_upto_end :: "Buf \<Rightarrow> Buf \<Rightarrow> bool" where
  \<comment> \<open>Two readers with one cursor and one bound, over bytes that agree below the bound.\<close>
  "same_upto_end b b' =
     (pos b' = pos b \<and> end_pos b' = end_pos b \<and>
      take (nat (end_pos b)) (data b') = take (nat (end_pos b)) (data b))"

lemma pop_byte_advances:
  "pop_byte b = (Inr v, b') \<Longrightarrow> pos b < end_pos b \<and> b' = b\<lparr>pos := pos b + 1\<rparr>"
  by (auto simp: pop_byte_def split: if_splits sum.splits)

text \<open>
  The loop of \<open>get_length\<close>, \<open>while lol: n = (n << 8) | self.pop_byte()\<close>. Nothing in
  its body changes \<open>lol\<close>; it ends when \<open>lol\<close> is zero at entry or when \<open>pop_byte\<close>
  raises.
\<close>

function get_length_loop :: "int \<Rightarrow> int \<Rightarrow> Buf \<Rightarrow> (error + int) \<times> Buf" where
  "get_length_loop lol n b =
     (if lol \<noteq> 0 then
        (case pop_byte b of
           (Inl e, b') \<Rightarrow> (Inl e, b')
         | (Inr v, b') \<Rightarrow> get_length_loop lol (push_bit 8 n OR v) b')
      else (Inr n, b))"
  by pat_completeness auto
termination
  by (relation "measure (\<lambda>(lol, n, b). nat (end_pos b - pos b))")
     (auto dest!: pop_byte_advances [OF sym])

definition get_length :: "Buf \<Rightarrow> (error + int) \<times> Buf" where
  "get_length b =
     (case pop_byte b of
        (Inl e, b1) \<Rightarrow> (Inl e, b1)
      | (Inr val, b1) \<Rightarrow>
          if val < 0x80 then (Inr val, b1)
          else if val = 0x80 then (Inl IndefiniteLength, b1)
          else (let lol = val AND 0x7f in
                if lol > 4 then (Inl ElementTooLarge, b1)
                else get_length_loop lol 0 b1))"

definition check :: "int \<Rightarrow> Buf \<Rightarrow> (error + unit) \<times> Buf" where
  "check expected b =
     (case pop_byte b of
        (Inl e, b1) \<Rightarrow> (Inl e, b1)
      | (Inr tag, b1) \<Rightarrow> if tag \<noteq> expected then (Inl UnexpectedType, b1) else (Inr (), b1))"

definition next_tlv :: "int \<Rightarrow> Buf \<Rightarrow> (error + Buf) \<times> Buf" where
  \<comment> \<open>The method \<open>next\<close>.\<close>
  "next_tlv expected b =
     (case check expected b of
        (Inl e, b1) \<Rightarrow> (Inl e, b1)
      | (Inr u, b1) \<Rightarrow>
          (case get_length b1 of
             (Inl e, b2) \<Rightarrow> (Inl e, b2)
           | (Inr len, b2) \<Rightarrow> pop len b2))"

text \<open>
  The loop of \<open>get_integer\<close>, \<open>while length: n = n << 8 | self.pop_byte(); length -= 1\<close>.
\<close>

function get_integer_loop :: "int \<Rightarrow> int \<Rightarrow> Buf \<Rightarrow> (error + int) \<times> Buf" where
  "get_integer_loop len n b =
     (if len \<noteq> 0 then
        (case pop_byte b of
           (Inl e, b') \<Rightarrow> (Inl e, b')
         | (Inr v, b') \<Rightarrow> get_integer_loop (len - 1) (push_bit 8 n OR v) b')
      else (Inr n, b))"
  by pat_completeness auto
termination
  by (relation "measure (\<lambda>(len, n, b). nat (end_pos b - pos b))")
     (auto dest!: pop_byte_advances [OF sym])

text \<open>
  In \<open>get_integer\<close> the loop and the \<open>return n\<close> stand under the \<open>else\<close> of
  \<open>if n & 0x80\<close>. When the first byte has its high bit set, the branch taken is
  \<open>n -= 0x100\<close> alone, and the function ends without a \<open>return\<close>: the call returns
  Python's \<open>None\<close>, which is \<open>None\<close> here; an integer \<open>v\<close> is \<open>Some v\<close>.
\<close>

definition get_integer :: "int \<Rightarrow> Buf \<Rightarrow> (error + int option) \<times> Buf" where
  "get_integer len b =
     (if len = 0 then (Inr (Some 0), b)
      else (case pop_byte b of
              (Inl e, b1) \<Rightarrow> (Inl e, b1)
            | (Inr n, b1) \<Rightarrow>
                if n AND 0x80 \<noteq> 0 then (Inr None, b1)
                else (case get_integer_loop (len - 1) n b1 of
                        (Inl e, b2) \<Rightarrow> (Inl e, b2)
                      | (Inr r, b2) \<Rightarrow> (Inr (Some r), b2))))"

definition py2_less :: "int option \<Rightarrow> int \<Rightarrow> bool" where
  \<comment> \<open>\<open>r < m\<close> in Python 2, where \<open>None\<close> is below every number.\<close>
  "py2_less r m = (case r of None \<Rightarrow> True | Some v \<Rightarrow> v < m)"

definition py2_greater :: "int option \<Rightarrow> int \<Rightarrow> bool" where
  "py2_greater r m = (case r of None \<Rightarrow> False | Some v \<Rightarrow> v > m)"

definition next_INTEGER ::
  "int option \<Rightarrow> int option \<Rightarrow> Buf \<Rightarrow> (error + int option) \<times> Buf" where
  "next_INTEGER min_val max_val b =
     (case check TAG_INTEGER b of
        (Inl e, b1) \<Rightarrow> (Inl e, b1)
      | (Inr u, b1) \<Rightarrow>
          (case get_length b1 of
             (Inl e, b2) \<Rightarrow> (Inl e, b2)
           | (Inr len, b2) \<Rightarrow>
               (case get_integer len b2 of
                  (Inl e, b3) \<Rightarrow> (Inl e, b3)
                | (Inr r, b3) \<Rightarrow>
                    if (case min_val of None \<Rightarrow> False | Some m \<Rightarrow> py2_less r m)
                    then (Inl ConstraintViolation, b3)
                    else if (case max_val of None \<Rightarrow> False | Some m \<Rightarrow> py2_greater r m)
                    then (Inl ConstraintViolation, b3)
                    else (Inr r, b3))))"

definition next_OCTET_STRING ::
  "int option \<Rightarrow> int option \<Rightarrow> Buf \<Rightarrow> (error + byte list) \<times> Buf" where
  "next_OCTET_STRING min_size max_size b =
     (case check TAG_OCTETSTRING b of
        (Inl e, b1) \<Rightarrow> (Inl e, b1)
      | (Inr u, b1) \<Rightarrow>
          (case get_length b1 of
             (Inl e, b2) \<Rightarrow> (Inl e, b2)
           | (Inr len, b2) \<Rightarrow>
               (case pop_bytes len b2 of
                  (Inl e, b3) \<Rightarrow> (Inl e, b3)
                | (Inr r, b3) \<Rightarrow>
                    if (case min_size of None \<Rightarrow> False | Some m \<Rightarrow> int (length r) < m)
                    then (Inl ConstraintViolation, b3)
                    else if (case max_size of None \<Rightarrow> False | Some m \<Rightarrow> int (length r) > m)
                    then (Inl ConstraintViolation, b3)
                    else (Inr r, b3))))"

definition next_BOOLEAN :: "Buf \<Rightarrow> (error + bool) \<times> Buf" where
  "next_BOOLEAN b =
     (case check TAG_BOOLEAN b of
        (Inl e, b1) \<Rightarrow> (Inl e, b1)
      | (Inr u, b1) \<Rightarrow>
          (case pop_byte b1 of
             (Inl e, b2) \<Rightarrow> (Inl e, b2)
           | (Inr v, b2) \<Rightarrow> (Inr (v \<noteq> 0), b2)))"

definition next_ENUMERATED :: "Buf \<Rightarrow> (error + int option) \<times> Buf" where
  "next_ENUMERATED b =
     (case check TAG_ENUMERATED b of
        (Inl e, b1) \<Rightarrow> (Inl e, b1)
      | (Inr u, b1) \<Rightarrow>
          (case get_length b1 of
             (Inl e, b2) \<Rightarrow> (Inl e, b2)
           | (Inr len, b2) \<Rightarrow> get_integer len b2))"

text \<open>
  \<open>next_APPLICATION\<close> tests \<open>tag & FLAG.APPLICAITON\<close>, a name class \<open>FLAG\<close> does not
  have; the name is kept as the source spells it.
\<close>

definition next_APPLICATION :: "Buf \<Rightarrow> (error + int \<times> Buf) \<times> Buf" where
  "next_APPLICATION b =
     (case pop_byte b of
        (Inl e, b1) \<Rightarrow> (Inl e, b1)
      | (Inr tag, b1) \<Rightarrow>
          (case FLAG ''APPLICAITON'' of
             Inl e \<Rightarrow> (Inl e, b1)
           | Inr flag \<Rightarrow>
               if tag AND flag = 0 then (Inl UnexpectedType, b1)
               else (case get_length b1 of
                       (Inl e, b2) \<Rightarrow> (Inl e, b2)
                     | (Inr len, b2) \<Rightarrow>
                         (case pop len b2 of
                            (Inl e, b3) \<Rightarrow> (Inl e, b3)
                          | (Inr sub, b3) \<Rightarrow> (Inr (tag AND 0x1f, sub), b3)))))"

subsection \<open>Encoder, the writer\<close>

text \<open>
  The fields \<open>r\<close> and \<open>length\<close> of \<open>Encoder\<close> are \<open>enc_r\<close> and \<open>enc_length\<close>. A chunk is a
  \<open>str\<close>; \<open>r.insert (0, data)\<close> puts it at the head of the list.
\<close>

record Encoder =
  enc_r :: "byte list list"
  enc_length :: int

definition Encoder_init :: Encoder where
  "Encoder_init = \<lparr>enc_r = [], enc_length = 0\<rparr>"

definition Encoder_inv :: "Encoder \<Rightarrow> bool" where
  "Encoder_inv e = (enc_length e = (\<Sum>c \<leftarrow> enc_r e. int (length c)))"

definition emit :: "byte list \<Rightarrow> Encoder \<Rightarrow> Encoder" where
  "emit d e = e\<lparr>enc_r := d # enc_r e, enc_length := enc_length e + int (length d)\<rparr>"

definition Encoder_done :: "Encoder \<Rightarrow> byte list" where
  \<comment> \<open>The method \<open>done\<close>: \<open>''.join (self.r)\<close>.\<close>
  "Encoder_done e = concat (enc_r e)"

text \<open>
  The loop of \<open>emit_length\<close>, \<open>while n: r.insert (0, chr (n & 0xff)); n >>= 8\<close>. On a
  negative \<open>n\<close> it would not end (\<open>-1 >> 8\<close> is \<open>-1\<close>), so not returning is the value
  \<open>None\<close>.
\<close>

partial_function (option) emit_length_loop :: "int \<Rightarrow> byte list \<Rightarrow> (error + byte list) option" where
  "emit_length_loop n r =
     (if n \<noteq> 0 then
        (case py_chr (n AND 0xff) of
           Inl e \<Rightarrow> Some (Inl e)
         | Inr c \<Rightarrow> emit_length_loop (drop_bit 8 n) (c # r))
      else Some (Inr r))"

declare emit_length_loop.simps [code]

definition emit_length :: "int \<Rightarrow> Encoder \<Rightarrow> ((error + unit) \<times> Encoder) option" where
  "emit_length n e =
     (if n < 0x80 then
        (case py_chr n of
           Inl err \<Rightarrow> Some (Inl err, e)
         | Inr c \<Rightarrow> Some (Inr (), emit [c] e))
      else
        (case py_chr (0x80 OR ((n - 1) AND 0x7f)) of
           Inl err \<Rightarrow> Some (Inl err, e)
         | Inr b0 \<Rightarrow>
             (case emit_length_loop n [] of
                None \<Rightarrow> None
              | Some (Inl err) \<Rightarrow> Some (Inl err, e)
              | Some (Inr r) \<Rightarrow> Some (Inr (), emit (b0 # r) e))))"

text \<open>
  The loop of \<open>emit_integer\<close>. \<open>n >>= 8\<close> opens the body; \<open>break\<close> ends the loop with
  the list \<open>r\<close>, and the other branch goes round with \<open>n0 = n\<close>.
\<close>

function emit_integer_loop :: "int \<Rightarrow> int \<Rightarrow> int \<Rightarrow> int \<Rightarrow> byte list \<Rightarrow> error + byte list" where
  "emit_integer_loop n n0 byte i r =
     (let n' = drop_bit 8 n in
      if n0 = n' then
        (if n' = - 1 \<and> (byte AND 0x80 = 0 \<or> i = 0) then
           (case py_chr 0xff of Inl e \<Rightarrow> Inl e | Inr c \<Rightarrow> Inr (c # r))
         else if n' = 0 \<and> byte AND 0x80 \<noteq> 0 then
           (case py_chr 0x00 of Inl e \<Rightarrow> Inl e | Inr c \<Rightarrow> Inr (c # r))
         else Inr r)
      else
        (let byte' = n0 AND 0xff in
         case py_chr byte' of
           Inl e \<Rightarrow> Inl e
         | Inr c \<Rightarrow> emit_integer_loop n' n' byte' (i + 1) (c # r)))"
  by pat_completeness auto
termination
proof (relation "measure (\<lambda>(n, n0, byte, i, r). if n0 = n then nat \<bar>n\<bar> else nat \<bar>n\<bar> + 1)")
  show "wf (measure (\<lambda>(n, n0, byte, i, r). if n0 = n then nat \<bar>n\<bar> else nat \<bar>n\<bar> + 1))"
    by simp
next
  fix n n0 byte i :: int and r :: "byte list" and n' byte' :: int and c :: byte
  assume n': "n' = drop_bit 8 n" and ne: "n0 \<noteq> n'"
  have le: "\<bar>n div 256\<bar> \<le> \<bar>n\<bar>"
    by arith
  have lt: "n \<noteq> n div 256 \<Longrightarrow> \<bar>n div 256\<bar> < \<bar>n\<bar>"
    by arith
  show "((n', n', byte', i + 1, c # r), (n, n0, byte, i, r))
        \<in> measure (\<lambda>(n, n0, byte, i, r). if n0 = n then nat \<bar>n\<bar> else nat \<bar>n\<bar> + 1)"
    using le lt ne by (auto simp: n' drop_bit_eq_div)
qed

definition emit_integer :: "int \<Rightarrow> Encoder \<Rightarrow> (error + unit) \<times> Encoder" where
  "emit_integer n e =
     (case emit_integer_loop n n 0x80 0 [] of
        Inl err \<Rightarrow> (Inl err, e)
      | Inr r \<Rightarrow> (Inr (), emit r e))"

subsection \<open>EncoderContext, the TLV scope\<close>

text \<open>
  \<open>Encoder.TLV (tag)\<close> builds an \<open>EncoderContext\<close>, which keeps the tag and the writer's
  length at that moment. Its \<open>__exit__ (self, t, v, tb)\<close> looks at none of its
  arguments and returns nothing.

  \<open>with enc.TLV (tag): body\<close> is \<open>with_TLV tag body\<close>: the body runs on the writer and
  returns or raises; then \<open>__exit__\<close> runs in either case. An exception of \<open>__exit__\<close>
  replaces that of the body; otherwise, \<open>__exit__\<close> returning nothing, the body's
  exception goes on.
\<close>

record EncoderContext =
  ctx_tag :: int
  ctx_pos :: int

definition TLV :: "int \<Rightarrow> Encoder \<Rightarrow> EncoderContext" where
  "TLV tag e = \<lparr>ctx_tag = tag, ctx_pos = enc_length e\<rparr>"

definition ctx_exit :: "EncoderContext \<Rightarrow> Encoder \<Rightarrow> ((error + unit) \<times> Encoder) option" where
  \<comment> \<open>The method \<open>__exit__\<close>.\<close>
  "ctx_exit c e =
     (case emit_length (enc_length e - ctx_pos c) e of
        None \<Rightarrow> None
      | Some (Inl err, e1) \<Rightarrow> Some (Inl err, e1)
      | Some (Inr u, e1) \<Rightarrow>
          (case py_chr (ctx_tag c) of
             Inl err \<Rightarrow> Some (Inl err, e1)
           | Inr t \<Rightarrow> Some (Inr (), emit [t] e1)))"

definition with_TLV ::
  "int \<Rightarrow> (Encoder \<Rightarrow> ((error + unit) \<times> Encoder) option) \<Rightarrow> Encoder
     \<Rightarrow> ((error + unit) \<times> Encoder) option" where
  "with_TLV tag body e =
     (let c = TLV tag e in
      case body e of
        None \<Rightarrow> None
      | Some (res, e1) \<Rightarrow>
          (case ctx_exit c e1 of
             None \<Rightarrow> None
           | Some (Inl err, e2) \<Rightarrow> Some (Inl err, e2)
           | Some (Inr u, e2) \<Rightarrow> Some (res, e2)))"

definition emit_INTEGER :: "int \<Rightarrow> Encoder \<Rightarrow> ((error + unit) \<times> Encoder) option" where
  "emit_INTEGER n e = with_TLV TAG_INTEGER (\<lambda>e. Some (emit_integer n e)) e"

subsection \<open>The two's complement reading of a byte string\<close>

text \<open>
  These three follow the spec, not the code: the value of a big-endian byte string
  read as unsigned and as two's complement, and what the spec calls a redundant
  leading byte (a \<open>0x00\<close> before a byte with the high bit clear, a \<open>0xff\<close> before one
  with the high bit set). What \<open>emit_integer\<close> writes is measured against them.
\<close>

fun spec_be_unsigned :: "byte list \<Rightarrow> int" where
  "spec_be_unsigned [] = 0"
| "spec_be_unsigned (c # cs) = uint c * 256 ^ length cs + spec_be_unsigned cs"

fun spec_twos_complement :: "byte list \<Rightarrow> int" where
  "spec_twos_complement [] = 0"
| "spec_twos_complement (c # cs) = sint c * 256 ^ length cs + spec_be_unsigned cs"

fun spec_redundant_lead :: "byte list \<Rightarrow> bool" where
  "spec_redundant_lead (c # d # cs) = ((c = 0 \<and> d < 0x80) \<or> (c = 0xff \<and> 0x80 \<le> d))"
| "spec_redundant_lead cs = False"

section \<open>Properties\<close>

declare get_length_loop.simps [simp del] get_integer_loop.simps [simp del]
  emit_integer_loop.simps [simp del]

lemma pop_byte_error:
  "pop_byte b = (Inl e, b') \<Longrightarrow> b' = b \<and> (e = Underflow \<or> e = IndexError)"
  by (auto simp: pop_byte_def getitem_def split: if_splits sum.splits)

lemma pop_byte_inv:
  "Buf_inv b \<Longrightarrow> pop_byte b =
     (if end_pos b - pos b < 1 then (Inl Underflow, b)
      else (Inr (py_ord (data b ! nat (pos b))), b\<lparr>pos := pos b + 1\<rparr>))"
  by (auto simp: pop_byte_def getitem_def Buf_inv_def)

lemma get_length_loop_fails:
  "lol \<noteq> 0 \<Longrightarrow>
   \<exists>err b'. get_length_loop lol n b = (Inl err, b') \<and> (err = Underflow \<or> err = IndexError)"
proof (induction lol n b rule: get_length_loop.induct)
  case (1 lol n b)
  obtain res b' where pb: "pop_byte b = (res, b')"
    by (cases "pop_byte b")
  show ?case
  proof (cases res)
    case (Inl e)
    with pb pop_byte_error [of b e b'] 1(2) show ?thesis
      by (subst get_length_loop.simps) auto
  next
    case (Inr v)
    with pb 1 show ?thesis
      by (subst get_length_loop.simps) simp
  qed
qed

lemma and_255: "(n::int) AND 255 = n mod 256"
proof -
  have "n AND mask 8 = n mod 2 ^ 8"
    by (simp only: take_bit_eq_mod flip: take_bit_eq_mask)
  then show ?thesis by (simp add: mask_eq_exp_minus_1)
qed

lemma py_chr_byte: "py_chr (n AND 255) = Inr (word_of_int (n AND 255))"
  by (simp add: py_chr_def and_255)

lemma emit_length_loop_returns:
  "0 \<le> n \<Longrightarrow> \<exists>bs. emit_length_loop n r = Some (Inr (bs @ r))"
proof (induction "nat n" arbitrary: n r rule: less_induct)
  case less
  show ?case
  proof (cases "n = 0")
    case True
    then show ?thesis by (simp add: emit_length_loop.simps)
  next
    case False
    with less.prems have "nat (drop_bit 8 n) < nat n" and "0 \<le> drop_bit 8 n"
      by (simp_all add: drop_bit_eq_div)
    from less.hyps [OF this, of "word_of_int (n AND 255) # r"]
    obtain bs where "emit_length_loop (drop_bit 8 n) (word_of_int (n AND 255) # r)
        = Some (Inr (bs @ word_of_int (n AND 255) # r))"
      by blast
    with False show ?thesis
      by (subst emit_length_loop.simps) (simp add: py_chr_byte)
  qed
qed

lemma emit_integer_loop_returns:
  "\<exists>bs. emit_integer_loop n n0 byte i r = Inr (bs @ r)"
proof (induction n n0 byte i r rule: emit_integer_loop.induct)
  case (1 n n0 byte i r)
  show ?case
  proof (cases "n0 = drop_bit 8 n")
    case True
    then show ?thesis
      by (subst emit_integer_loop.simps) (auto simp: py_chr_def Let_def)
  next
    case False
    from 1 [OF refl False refl py_chr_byte]
    obtain bs where "emit_integer_loop (drop_bit 8 n) (drop_bit 8 n) (n0 AND 255) (i + 1)
        (word_of_int (n0 AND 255) # r) = Inr (bs @ word_of_int (n0 AND 255) # r)"
      by blast
    with False show ?thesis
      by (subst emit_integer_loop.simps) (simp add: py_chr_byte Let_def)
  qed
qed


subsection \<open>The reader's bounds\<close>

lemma same_upto_end_inv:
  assumes "Buf_inv b" and "same_upto_end b b'"
  shows "Buf_inv b'"
proof -
  from assms(1) have "length (take (nat (end_pos b)) (data b)) = nat (end_pos b)"
    by (auto simp: Buf_inv_def)
  with assms(2) have "length (take (nat (end_pos b)) (data b')) = nat (end_pos b)"
    by (simp only: same_upto_end_def)
  then have "nat (end_pos b) \<le> length (data b')" by simp
  with assms show ?thesis by (simp add: same_upto_end_def Buf_inv_def)
qed

lemma same_upto_end_nth:
  assumes "same_upto_end b b'" and "i < nat (end_pos b)"
  shows "data b' ! i = data b ! i"
proof -
  have "take (nat (end_pos b)) (data b') ! i = take (nat (end_pos b)) (data b) ! i"
    using assms by (simp add: same_upto_end_def)
  with assms(2) show ?thesis by simp
qed

lemma getslice_inv:
  "0 \<le> p \<Longrightarrow> 0 \<le> n \<Longrightarrow> p + n \<le> int (length s) \<Longrightarrow>
   getslice s p (p + n) = take (nat n) (drop (nat p) s)"
  by (simp add: getslice_def slice_index_def Let_def min_def nat_add_distrib)

lemma take_drop_prefix:
  "p + n \<le> k \<Longrightarrow> take n (drop p (take k xs)) = take n (drop p xs)"
  by (simp add: drop_take min_def)

text \<open>
  Claim C5. On a reader with \<open>0 \<le> pos \<le> end \<le> len(data)\<close>, \<open>pop_byte\<close>, \<open>pop(n)\<close> and
  \<open>pop_bytes(n)\<close> with \<open>n \<ge> 0\<close> raise Underflow when more bytes are asked for than
  remain between the cursor and the bound, and no byte at or beyond \<open>end\<close> is read:
  what \<open>pop_byte\<close> and \<open>pop_bytes\<close> return is the same on any other byte sequence that
  agrees with \<open>data\<close> below \<open>end\<close>, and the reader \<open>pop\<close> returns lies between the
  cursor and the bound.
\<close>

theorem Buf_bounds_safety:
  assumes "Buf_inv b" and "0 \<le> n" and "same_upto_end b b'"
  shows "(end_pos b - pos b < 1 \<longrightarrow> pop_byte b = (Inl Underflow, b))
       \<and> (end_pos b - pos b < n \<longrightarrow>
            pop n b = (Inl Underflow, b) \<and> pop_bytes n b = (Inl Underflow, b))
       \<and> fst (pop_byte b') = fst (pop_byte b)
       \<and> fst (pop_bytes n b') = fst (pop_bytes n b)
       \<and> (\<forall>sub b1. pop n b = (Inr sub, b1) \<longrightarrow>
             pos b \<le> pos sub \<and> end_pos sub \<le> end_pos b \<and> Buf_inv sub)"
proof -
  have inv': "Buf_inv b'" using assms(1,3) by (rule same_upto_end_inv)
  have eq: "pos b' = pos b" "end_pos b' = end_pos b"
    using assms(3) by (simp_all add: same_upto_end_def)
  have under: "end_pos b - pos b < 1 \<longrightarrow> pop_byte b = (Inl Underflow, b)"
    by (simp add: pop_byte_def)
  have under_n: "end_pos b - pos b < n \<longrightarrow>
      pop n b = (Inl Underflow, b) \<and> pop_bytes n b = (Inl Underflow, b)"
    by (simp add: pop_def pop_bytes_def)
  have byte: "fst (pop_byte b') = fst (pop_byte b)"
  proof (cases "end_pos b - pos b < 1")
    case True
    then show ?thesis by (simp add: pop_byte_inv [OF inv'] pop_byte_inv [OF assms(1)] eq)
  next
    case False
    with assms(1) have "nat (pos b) < nat (end_pos b)" by (simp add: Buf_inv_def)
    from same_upto_end_nth [OF assms(3) this] False show ?thesis
      by (simp add: pop_byte_inv [OF inv'] pop_byte_inv [OF assms(1)] eq)
  qed
  have bytes: "fst (pop_bytes n b') = fst (pop_bytes n b)"
  proof (cases "end_pos b - pos b < n")
    case True
    then show ?thesis by (simp add: pop_bytes_def eq)
  next
    case False
    let ?k = "nat (end_pos b)"
    from False assms(1,2) have le: "nat (pos b) + nat n \<le> ?k"
      by (simp add: Buf_inv_def nat_add_distrib [symmetric] nat_le_eq_zle)
    from False assms(1) inv' eq
    have "pos b + n \<le> int (length (data b))" "pos b + n \<le> int (length (data b'))" "0 \<le> pos b"
      by (simp_all add: Buf_inv_def)
    then have "getslice (data b) (pos b) (pos b + n) = take (nat n) (drop (nat (pos b)) (data b))"
      and "getslice (data b') (pos b) (pos b + n) = take (nat n) (drop (nat (pos b)) (data b'))"
      using assms(2) by (simp_all add: getslice_inv)
    moreover have "take (nat n) (drop (nat (pos b)) (data b'))
        = take (nat n) (drop (nat (pos b)) (data b))"
      using take_drop_prefix [OF le, of "data b'"] take_drop_prefix [OF le, of "data b"] assms(3)
      by (simp add: same_upto_end_def)
    ultimately show ?thesis using False by (simp add: pop_bytes_def eq)
  qed
  have sub: "\<forall>sub b1. pop n b = (Inr sub, b1) \<longrightarrow>
      pos b \<le> pos sub \<and> end_pos sub \<le> end_pos b \<and> Buf_inv sub"
    using assms(1,2) by (auto simp: pop_def Buf_inv_def split: if_splits)
  from under under_n byte bytes sub show ?thesis by blast
qed

theorem Buf_bounds_safety_witness:
  "Buf_inv \<lparr>data = [1, 2, 3], pos = 1, end_pos = 2\<rparr>
   \<and> same_upto_end \<lparr>data = [1, 2, 3], pos = 1, end_pos = 2\<rparr> \<lparr>data = [1, 2, 9, 9], pos = 1, end_pos = 2\<rparr>
   \<and> pop 2 \<lparr>data = [1, 2, 3], pos = 1, end_pos = 2\<rparr>
       = (Inl Underflow, \<lparr>data = [1, 2, 3], pos = 1, end_pos = 2\<rparr>)
   \<and> pop_bytes 2 \<lparr>data = [1, 2, 3], pos = 1, end_pos = 2\<rparr>
       = (Inl Underflow, \<lparr>data = [1, 2, 3], pos = 1, end_pos = 2\<rparr>)
   \<and> fst (pop_byte \<lparr>data = [1, 2, 9, 9], pos = 1, end_pos = 2\<rparr>) = Inr 2"
  using Buf_bounds_safety [of "\<lparr>data = [1, 2, 3], pos = 1, end_pos = 2\<rparr>" 2
      "\<lparr>data = [1, 2, 9, 9], pos = 1, end_pos = 2\<rparr>"]
  by (simp add: Buf_inv_def same_upto_end_def pop_byte_def getitem_def py_ord_def)

text \<open>
  Claim C10. When \<open>pop_byte\<close>, \<open>pop(n)\<close> or \<open>pop_bytes(n)\<close> raises Underflow, the reader is
  as it was before the call: \<open>pos\<close> and \<open>end\<close> keep their values.
\<close>

theorem Underflow_leaves_reader:
  assumes "pop_byte b = (Inl Underflow, b') \<or> pop n b = (Inl Underflow, b')
           \<or> pop_bytes n b = (Inl Underflow, b')"
  shows "b' = b \<and> pos b' = pos b \<and> end_pos b' = end_pos b"
  using assms by (auto simp: pop_byte_def pop_def pop_bytes_def split: if_splits sum.splits)

theorem Underflow_leaves_reader_witness:
  "pop 5 (Buf_init [7, 8]) = (Inl Underflow, Buf_init [7, 8])"
  using Underflow_leaves_reader [of "Buf_init [7, 8]" "Buf_init [7, 8]" 5]
  by (simp add: pop_def Buf_init_def)

subsection \<open>Constraints\<close>

lemma next_INTEGER_bounds:
  assumes "next_INTEGER None None b = (Inr r, b1)"
  shows "next_INTEGER min_val max_val b =
     (if (\<exists>m. min_val = Some m \<and> py2_less r m) \<or> (\<exists>m. max_val = Some m \<and> py2_greater r m)
      then (Inl ConstraintViolation, b1) else (Inr r, b1))"
  using assms
  by (auto simp: next_INTEGER_def split: prod.splits sum.splits option.splits)

lemma next_OCTET_STRING_bounds:
  assumes "next_OCTET_STRING None None b = (Inr s, b1)"
  shows "next_OCTET_STRING min_size max_size b =
     (if (\<exists>m. min_size = Some m \<and> int (length s) < m) \<or> (\<exists>m. max_size = Some m \<and> int (length s) > m)
      then (Inl ConstraintViolation, b1) else (Inr s, b1))"
  using assms
  by (auto simp: next_OCTET_STRING_def split: prod.splits sum.splits option.splits)

text \<open>
  Where the decoding without bounds yields an integer \<open>v\<close> (for \<open>next_INTEGER\<close>) and a
  byte string \<open>s\<close> (for \<open>next_OCTET_STRING\<close>), the call with bounds raises
  ConstraintViolation when \<open>v\<close> (the length of \<open>s\<close>) is below a minimum that is given
  or above a maximum that is given, and returns \<open>v\<close> (\<open>s\<close>) otherwise, so also when it
  equals a bound. Such a \<open>v\<close> is never negative and such an \<open>s\<close> never has 128 bytes
  (lemmas \<open>next_INTEGER_nonneg\<close>, \<open>next_OCTET_STRING_short\<close>).
\<close>

lemma bounds_enforced:
  assumes "next_INTEGER None None b = (Inr (Some v), b1)"
    and "next_OCTET_STRING None None c = (Inr s, c1)"
  shows "next_INTEGER min_val max_val b =
           (if (\<exists>m. min_val = Some m \<and> v < m) \<or> (\<exists>m. max_val = Some m \<and> v > m)
            then (Inl ConstraintViolation, b1) else (Inr (Some v), b1))
       \<and> next_OCTET_STRING min_size max_size c =
           (if (\<exists>m. min_size = Some m \<and> int (length s) < m)
               \<or> (\<exists>m. max_size = Some m \<and> int (length s) > m)
            then (Inl ConstraintViolation, c1) else (Inr s, c1))"
  using next_INTEGER_bounds [OF assms(1), of min_val max_val]
    next_OCTET_STRING_bounds [OF assms(2), of min_size max_size]
  by (simp add: py2_less_def py2_greater_def)

lemma eval_next_INTEGER_5:
  "next_INTEGER None None (Buf_init [2, 1, 5]) = (Inr (Some 5), \<lparr>data = [2, 1, 5], pos = 3, end_pos = 3\<rparr>)"
  by code_simp

lemma eval_next_OCTET_STRING_2:
  "next_OCTET_STRING None None (Buf_init [4, 2, 7, 8]) = (Inr [7, 8], \<lparr>data = [4, 2, 7, 8], pos = 4, end_pos = 4\<rparr>)"
  by code_simp

lemma bounds_enforced_witness:
  "next_INTEGER (Some 5) (Some 5) (Buf_init [2, 1, 5])
     = (Inr (Some 5), \<lparr>data = [2, 1, 5], pos = 3, end_pos = 3\<rparr>)
   \<and> next_INTEGER (Some 6) None (Buf_init [2, 1, 5])
     = (Inl ConstraintViolation, \<lparr>data = [2, 1, 5], pos = 3, end_pos = 3\<rparr>)
   \<and> next_INTEGER None (Some 4) (Buf_init [2, 1, 5])
     = (Inl ConstraintViolation, \<lparr>data = [2, 1, 5], pos = 3, end_pos = 3\<rparr>)
   \<and> next_OCTET_STRING (Some 2) (Some 2) (Buf_init [4, 2, 7, 8])
     = (Inr [7, 8], \<lparr>data = [4, 2, 7, 8], pos = 4, end_pos = 4\<rparr>)
   \<and> next_OCTET_STRING (Some 3) None (Buf_init [4, 2, 7, 8])
     = (Inl ConstraintViolation, \<lparr>data = [4, 2, 7, 8], pos = 4, end_pos = 4\<rparr>)
   \<and> next_OCTET_STRING None (Some 1) (Buf_init [4, 2, 7, 8])
     = (Inl ConstraintViolation, \<lparr>data = [4, 2, 7, 8], pos = 4, end_pos = 4\<rparr>)"
  using bounds_enforced [OF eval_next_INTEGER_5 eval_next_OCTET_STRING_2, of "Some 5" "Some 5" "Some 2" "Some 2"]
    bounds_enforced [OF eval_next_INTEGER_5 eval_next_OCTET_STRING_2, of "Some 6" None "Some 3" None]
    bounds_enforced [OF eval_next_INTEGER_5 eval_next_OCTET_STRING_2, of None "Some 4" None "Some 1"]
  by simp

subsection \<open>Never a long form, never an APPLICATION tag\<close>

lemma next_APPLICATION_raises:
  "next_APPLICATION b =
     (case pop_byte b of (Inl e, b1) \<Rightarrow> (Inl e, b1) | (Inr tag, b1) \<Rightarrow> (Inl AttributeError, b1))"
  by (simp add: next_APPLICATION_def FLAG_def split: prod.splits sum.splits)

text \<open>
  Claim C6 says \<open>next_APPLICATION\<close> raises UnexpectedType exactly when bit \<open>0x40\<close> of the
  tag byte is clear and returns the tag number and the content reader otherwise.
  The code does neither: once the tag byte is read it raises AttributeError, whatever
  the byte.
\<close>

theorem next_APPLICATION_never_returns:
  "next_APPLICATION b =
     (case pop_byte b of (Inl e, b1) \<Rightarrow> (Inl e, b1) | (Inr tag, b1) \<Rightarrow> (Inl AttributeError, b1))
   \<and> fst (next_APPLICATION b) \<noteq> Inl UnexpectedType
   \<and> fst (next_APPLICATION b) \<noteq> Inr x"
proof -
  obtain res b1 where pb: "pop_byte b = (res, b1)" by (cases "pop_byte b")
  show ?thesis
  proof (cases res)
    case (Inl e)
    with pb pop_byte_error [of b e b1] show ?thesis
      by (auto simp: next_APPLICATION_raises)
  next
    case (Inr tag)
    with pb show ?thesis by (simp add: next_APPLICATION_raises)
  qed
qed

lemma and_127: "(n::int) AND 127 = n mod 128"
proof -
  have "n AND mask 7 = n mod 2 ^ 7"
    by (simp only: take_bit_eq_mod flip: take_bit_eq_mask)
  then show ?thesis by (simp add: mask_eq_exp_minus_1)
qed

lemma and_128_eq_0: "(n::int) AND 128 = 0 \<longleftrightarrow> even (n div 128)"
  using and_exp_eq_0_iff_not_bit [of n 7] by (simp add: bit_iff_odd)

lemma pop_byte_range: "pop_byte b = (Inr v, b') \<Longrightarrow> 0 \<le> v \<and> v < 256"
  using uint_lt2p [where 'a = 8]
  by (auto simp: pop_byte_def py_ord_def split: if_splits sum.splits)

lemma get_length_long_fails:
  assumes "pop_byte b = (Inr val, b1)" and "0x80 < val"
  shows "\<exists>err b'. get_length b = (Inl err, b')
           \<and> (err = ElementTooLarge \<or> err = Underflow \<or> err = IndexError)"
proof (cases "val AND 0x7f > 4")
  case True
  with assms show ?thesis by (simp add: get_length_def)
next
  case False
  from pop_byte_range [OF assms(1)] assms(2) have "val AND 0x7f \<noteq> 0"
    by (simp add: and_127) arith
  from get_length_loop_fails [OF this, of 0 b1] False assms show ?thesis
    by (auto simp: get_length_def Let_def)
qed

text \<open>
  Claim C4 says a first byte above \<open>0x80\<close> makes \<open>get_length\<close> read as many bytes as its
  low seven bits say and return their big-endian value. The code never returns there:
  it raises ElementTooLarge, or its loop reads on until \<open>pop_byte\<close> raises.
\<close>

theorem get_length_long_form_never_returns:
  assumes "pop_byte b = (Inr val, b1)" and "0x80 < val"
  shows "\<exists>err b'. get_length b = (Inl err, b')
           \<and> (err = ElementTooLarge \<or> err = Underflow \<or> err = IndexError)"
  using assms by (rule get_length_long_fails)

theorem get_length_long_form_never_returns_witness:
  "pop_byte (Buf_init [0x82, 0x01, 0x00]) = (Inr 0x82, \<lparr>data = [0x82, 0x01, 0x00], pos = 1, end_pos = 3\<rparr>)
   \<and> get_length (Buf_init [0x82, 0x01, 0x00])
       = (Inl Underflow, \<lparr>data = [0x82, 0x01, 0x00], pos = 3, end_pos = 3\<rparr>)"
proof -
  have pb: "pop_byte (Buf_init [0x82, 0x01, 0x00])
      = (Inr 0x82, \<lparr>data = [0x82, 0x01, 0x00], pos = 1, end_pos = 3\<rparr>)"
    by code_simp
  have gl: "get_length (Buf_init [0x82, 0x01, 0x00])
       = (Inl Underflow, \<lparr>data = [0x82, 0x01, 0x00], pos = 3, end_pos = 3\<rparr>)"
    by code_simp
  from get_length_long_form_never_returns [OF pb] pb gl show ?thesis by simp
qed

text \<open>
  Claim C2 says \<open>get_integer\<close> starts from \<open>byte - 256\<close> when the first byte has its
  high bit set, folds in the bytes that remain and returns the signed value. The code
  reads that one byte and returns \<open>None\<close>.
\<close>

theorem get_integer_high_bit_returns_None:
  assumes "pop_byte b = (Inr n, b1)" and "0x80 \<le> n" and "len \<noteq> 0"
  shows "get_integer len b = (Inr None, b1)"
proof -
  from pop_byte_range [OF assms(1)] assms(2) have "n div 128 = 1" by arith
  then have "n AND 0x80 \<noteq> 0" by (simp add: and_128_eq_0)
  with assms show ?thesis by (simp add: get_integer_def)
qed

theorem get_integer_high_bit_returns_None_witness:
  "pop_byte (Buf_init [0xff, 0x7f]) = (Inr 0xff, \<lparr>data = [0xff, 0x7f], pos = 1, end_pos = 2\<rparr>)
   \<and> get_integer 2 (Buf_init [0xff, 0x7f])
        = (Inr None, \<lparr>data = [0xff, 0x7f], pos = 1, end_pos = 2\<rparr>)"
proof -
  have pb: "pop_byte (Buf_init [0xff, 0x7f])
      = (Inr 0xff, \<lparr>data = [0xff, 0x7f], pos = 1, end_pos = 2\<rparr>)"
    by code_simp
  from get_integer_high_bit_returns_None [OF pb, of 2] pb show ?thesis by simp
qed

lemma next_INTEGER_00_80: "next_INTEGER None None (Buf_init [0x02, 0x02, 0x00, 0x80])
   = (Inr (Some 128), \<lparr>data = [0x02, 0x02, 0x00, 0x80], pos = 4, end_pos = 4\<rparr>)"
  by code_simp


subsection \<open>Writer\<close>

lemma py_chr_ok: "0 \<le> i \<Longrightarrow> i < 256 \<Longrightarrow> py_chr i = Inr (word_of_int i)"
  by (simp add: py_chr_def)

lemma py_ord_chr: "0 \<le> i \<Longrightarrow> i < 256 \<Longrightarrow> py_ord (word_of_int i) = i"
  by (simp add: py_ord_def uint_word_of_int_eq take_bit_int_eq_self)

lemma or_128_and_127: "(128::int) OR (m AND 127) = 128 + m mod 128"
proof -
  have "(128::int) OR (m mod 128) = 128 + m mod 128"
  proof -
    have "(128::int) + m mod 128 = 128 OR (m mod 128)"
    proof (rule disjunctive_add)
      fix k :: nat
      show "\<not> bit (128::int) k \<or> \<not> bit (m mod 128) k"
      proof (cases "k < 7")
        case True
        have "bit (128 :: int) k \<longleftrightarrow> k = 7"
          using bit_exp_iff [where ?'a = int, of 7 k] by simp
        with True show ?thesis by simp
      next
        case False
        have "m mod 128 = take_bit 7 m" by (simp add: take_bit_eq_mod)
        with False show ?thesis by (simp add: bit_take_bit_iff)
      qed
    qed
    then show ?thesis by simp
  qed
  then show ?thesis by (simp add: and_127)
qed

lemma py_chr_b0:
  "py_chr (0x80 OR ((n - 1) AND 0x7f)) = Inr (word_of_int (0x80 OR ((n - 1) AND 0x7f)))"
  by (rule py_chr_ok) (simp_all add: or_128_and_127)

lemma emit_length_short:
  "0 \<le> n \<Longrightarrow> n < 0x80 \<Longrightarrow> emit_length n e = Some (Inr (), emit [word_of_int n] e)"
  by (simp add: emit_length_def py_chr_def)

lemma emit_length_negative:
  "n < 0 \<Longrightarrow> emit_length n e = Some (Inl ValueError, e)"
  by (simp add: emit_length_def py_chr_def)

lemma emit_length_long:
  assumes "0x80 \<le> n"
  shows "\<exists>bs. emit_length n e
     = Some (Inr (), emit (word_of_int (0x80 OR ((n - 1) AND 0x7f)) # bs) e)"
proof -
  from assms have "0 \<le> n" by simp
  from emit_length_loop_returns [OF this, of "[]"] obtain bs
    where "emit_length_loop n [] = Some (Inr bs)" by auto
  with assms have "emit_length n e
     = Some (Inr (), emit (word_of_int (0x80 OR ((n - 1) AND 0x7f)) # bs) e)"
    by (simp add: emit_length_def py_chr_b0)
  then show ?thesis by blast
qed

lemma emit_length_cases:
  "(n < 0 \<and> emit_length n e = Some (Inl ValueError, e))
   \<or> (0 \<le> n \<and> (\<exists>c. emit_length n e = Some (Inr (), emit c e)))"
proof (cases "n < 0")
  case True
  then show ?thesis by (simp add: emit_length_negative)
next
  case False
  show ?thesis
  proof (cases "n < 0x80")
    case True
    with False emit_length_short [of n e] show ?thesis by auto
  next
    case False
    with emit_length_long [of n e] show ?thesis by auto
  qed
qed

lemma emit_inv: "Encoder_inv e \<Longrightarrow> Encoder_inv (emit d e)"
  by (simp add: Encoder_inv_def emit_def)

lemma emit_integer_emits: "\<exists>bs. emit_integer m e = (Inr (), emit bs e)"
  using emit_integer_loop_returns [of m m 128 0 "[]"] by (auto simp: emit_integer_def)

lemma ctx_exit_cases:
  "(\<exists>err. ctx_exit c e = Some (Inl err, e))
   \<or> (\<exists>err lc. ctx_exit c e = Some (Inl err, emit lc e))
   \<or> (\<exists>t lc. ctx_exit c e = Some (Inr (), emit [t] (emit lc e)))"
proof (cases "enc_length e - ctx_pos c < 0")
  case True
  then show ?thesis by (simp add: ctx_exit_def emit_length_negative)
next
  case False
  with emit_length_cases [of "enc_length e - ctx_pos c" e] obtain lc
    where lc: "emit_length (enc_length e - ctx_pos c) e = Some (Inr (), emit lc e)"
    by auto
  show ?thesis
  proof (cases "py_chr (ctx_tag c)")
    case (Inl err)
    with lc have "ctx_exit c e = Some (Inl err, emit lc e)" by (simp add: ctx_exit_def)
    then show ?thesis by blast
  next
    case (Inr t)
    with lc have "ctx_exit c e = Some (Inr (), emit [t] (emit lc e))" by (simp add: ctx_exit_def)
    then show ?thesis by blast
  qed
qed

lemma length_concat_int: "int (length (concat xs)) = (\<Sum>c \<leftarrow> xs. int (length c))"
  by (induction xs) simp_all

lemma Encoder_done_length: "Encoder_inv e \<Longrightarrow> int (length (Encoder_done e)) = enc_length e"
  by (simp add: Encoder_inv_def Encoder_done_def length_concat_int)

text \<open>
  Claim C9. The length the writer keeps is the sum of the lengths of its chunks after
  \<open>emit\<close>, \<open>emit_length\<close>, \<open>emit_integer\<close> and the close of a TLV scope, each of which
  returns; what they emit stands before the chunks that were there; and \<open>done\<close> is
  the concatenation of the chunks in the stored order, as long as the kept length.
\<close>

theorem writer_invariant:
  assumes "Encoder_inv e"
  shows "Encoder_inv (emit d e) \<and> enc_r (emit d e) = d # enc_r e
    \<and> (case emit_length n e of None \<Rightarrow> False
        | Some (res, e') \<Rightarrow> Encoder_inv e' \<and> (e' = e \<or> (\<exists>c. enc_r e' = c # enc_r e)))
    \<and> (case emit_integer m e of (res, e') \<Rightarrow> Encoder_inv e' \<and> (\<exists>c. enc_r e' = c # enc_r e))
    \<and> (case ctx_exit c e of None \<Rightarrow> False
        | Some (res, e') \<Rightarrow> Encoder_inv e' \<and> (\<exists>cs. enc_r e' = cs @ enc_r e))
    \<and> Encoder_done e = concat (enc_r e)
    \<and> Encoder_done (emit d e) = d @ Encoder_done e
    \<and> int (length (Encoder_done e)) = enc_length e"
proof -
  have 1: "Encoder_inv (emit d e) \<and> enc_r (emit d e) = d # enc_r e"
    using assms by (simp add: emit_inv) (simp add: emit_def)
  have 2: "case emit_length n e of None \<Rightarrow> False
        | Some (res, e') \<Rightarrow> Encoder_inv e' \<and> (e' = e \<or> (\<exists>c. enc_r e' = c # enc_r e))"
    using emit_length_cases [of n e] assms by (auto simp: emit_inv) (simp add: emit_def)
  have 3: "case emit_integer m e of (res, e') \<Rightarrow> Encoder_inv e' \<and> (\<exists>c. enc_r e' = c # enc_r e)"
    using emit_integer_emits [of m e] assms by (auto simp: emit_inv) (simp add: emit_def)
  have 4: "case ctx_exit c e of None \<Rightarrow> False
        | Some (res, e') \<Rightarrow> Encoder_inv e' \<and> (\<exists>cs. enc_r e' = cs @ enc_r e)"
    using ctx_exit_cases [of c e] assms by (auto simp: emit_inv) (simp_all add: emit_def)
  have 5: "Encoder_done e = concat (enc_r e) \<and> Encoder_done (emit d e) = d @ Encoder_done e"
    by (simp add: Encoder_done_def emit_def)
  from 1 2 3 4 5 Encoder_done_length [OF assms] show ?thesis by blast
qed


theorem writer_invariant_witness:
  "Encoder_inv Encoder_init
   \<and> Encoder_inv (emit [1, 2] Encoder_init)
   \<and> emit_length 300 Encoder_init = Some (Inr (), \<lparr>enc_r = [[0xab, 0x01, 0x2c]], enc_length = 3\<rparr>)
   \<and> Encoder_inv \<lparr>enc_r = [[0xab, 0x01, 0x2c]], enc_length = 3\<rparr>
   \<and> Encoder_done (emit [1, 2] Encoder_init) = [1, 2]"
proof -
  have inv: "Encoder_inv Encoder_init" by (simp add: Encoder_inv_def Encoder_init_def)
  have el: "emit_length 300 Encoder_init
      = Some (Inr (), \<lparr>enc_r = [[0xab, 0x01, 0x2c]], enc_length = 3\<rparr>)"
    by code_simp
  from writer_invariant [OF inv, of "[1, 2]" 300] inv el show ?thesis
    by (simp add: Encoder_done_def Encoder_init_def)
qed

subsection \<open>TLV scope\<close>

text \<open>
  Claim C7 says the close of a TLV scope emits no length and no tag when its body
  raised. Here a body emits one byte and raises; the writer then holds the tag
  \<open>0x30\<close> and the length \<open>0x01\<close> before that byte.
\<close>

theorem TLV_exit_skipped_counterexample:
  "emit_length (- 1) (emit [0x41] Encoder_init)
     = Some (Inl ValueError, \<lparr>enc_r = [[0x41]], enc_length = 1\<rparr>)
   \<and> with_TLV 0x30 (\<lambda>e. emit_length (- 1) (emit [0x41] e)) Encoder_init
     = Some (Inl ValueError, \<lparr>enc_r = [[0x30], [0x01], [0x41]], enc_length = 3\<rparr>)"
  by (simp add: with_TLV_def TLV_def ctx_exit_def emit_length_negative emit_length_short
      emit_def Encoder_init_def py_chr_def)

text \<open>
  Claim C7, amended. When the body of a TLV scope raises, the close of the scope runs
  all the same: it emits the length of what the body emitted and then the tag (a tag
  in \<open>range(256)\<close>, a writer no shorter than at entry), and the body's error goes on.
\<close>

theorem TLV_exit_runs_on_error:
  assumes "body e = Some (Inl err, e1)"
    and "enc_length e \<le> enc_length e1" and "0 \<le> tag" and "tag < 256"
  shows "\<exists>lc. emit_length (enc_length e1 - enc_length e) e1 = Some (Inr (), emit lc e1)
          \<and> with_TLV tag body e = Some (Inl err, emit [word_of_int tag] (emit lc e1))"
proof -
  from assms(2) emit_length_cases [of "enc_length e1 - enc_length e" e1] obtain lc
    where lc: "emit_length (enc_length e1 - enc_length e) e1 = Some (Inr (), emit lc e1)"
    by auto
  with assms have "with_TLV tag body e = Some (Inl err, emit [word_of_int tag] (emit lc e1))"
    by (simp add: with_TLV_def TLV_def ctx_exit_def py_chr_def)
  with lc show ?thesis by blast
qed

theorem TLV_exit_runs_on_error_witness:
  "with_TLV 0x02 (\<lambda>e. emit_length (- 5) (emit [0x07, 0x08] e)) Encoder_init
     = Some (Inl ValueError, \<lparr>enc_r = [[0x02], [0x02], [0x07, 0x08]], enc_length = 4\<rparr>)"
proof -
  have body: "(\<lambda>e. emit_length (- 5) (emit [0x07, 0x08] e)) Encoder_init
      = Some (Inl ValueError, emit [0x07, 0x08] Encoder_init)"
    by (simp add: emit_length_negative)
  have le: "enc_length Encoder_init \<le> enc_length (emit [0x07, 0x08] Encoder_init)"
    by (simp add: emit_def)
  from TLV_exit_runs_on_error [of "\<lambda>e. emit_length (- 5) (emit [0x07, 0x08] e)", OF body le, of 2]
  show ?thesis
    by (simp add: emit_length_short emit_def Encoder_init_def)
qed

subsection \<open>Length round trip\<close>

lemma pop_byte_Buf_init_Cons:
  "pop_byte (Buf_init (c # cs)) = (Inr (py_ord c), (Buf_init (c # cs))\<lparr>pos := 1\<rparr>)"
  by (simp add: pop_byte_def Buf_init_def getitem_def)

lemma length_short_roundtrip:
  assumes "0 \<le> n" and "n < 0x80"
  shows "emit_length n Encoder_init = Some (Inr (), emit [word_of_int n] Encoder_init)
    \<and> Encoder_done (emit [word_of_int n] Encoder_init) = [word_of_int n]
    \<and> get_length (Buf_init [word_of_int n]) = (Inr n, (Buf_init [word_of_int n])\<lparr>pos := 1\<rparr>)"
  using assms
  by (simp add: emit_length_short Encoder_done_def emit_def Encoder_init_def get_length_def
      pop_byte_Buf_init_Cons py_ord_chr)

text \<open>
  Claim C3 says \<open>get_length\<close> of what \<open>emit_length(n)\<close> wrote is \<open>n\<close> up to \<open>2^32-1\<close>.
  From \<open>n = 0x80\<close> on, \<open>emit_length\<close> returns and \<open>get_length\<close> raises on its bytes.
\<close>

theorem length_roundtrip_fails_long_form:
  assumes "0x80 \<le> n"
  shows "\<exists>e err b'. emit_length n Encoder_init = Some (Inr (), e)
          \<and> get_length (Buf_init (Encoder_done e)) = (Inl err, b')"
proof -
  let ?b0 = "word_of_int (0x80 OR ((n - 1) AND 0x7f)) :: byte"
  from emit_length_long [OF assms, of Encoder_init] obtain bs
    where el: "emit_length n Encoder_init = Some (Inr (), emit (?b0 # bs) Encoder_init)"
    by blast
  have dn: "Encoder_done (emit (?b0 # bs) Encoder_init) = ?b0 # bs"
    by (simp add: Encoder_done_def emit_def Encoder_init_def)
  have ord: "py_ord ?b0 = 128 + (n - 1) mod 128"
    unfolding or_128_and_127 by (rule py_ord_chr) simp_all
  have "\<exists>err b'. get_length (Buf_init (?b0 # bs)) = (Inl err, b')"
  proof (cases "py_ord ?b0 = 0x80")
    case True
    then show ?thesis by (simp add: get_length_def pop_byte_Buf_init_Cons)
  next
    case False
    with ord have "0x80 < py_ord ?b0" by simp
    from get_length_long_fails [OF pop_byte_Buf_init_Cons this] show ?thesis by blast
  qed
  with el dn show ?thesis by auto
qed

theorem length_roundtrip_fails_long_form_witness:
  "emit_length 128 Encoder_init = Some (Inr (), \<lparr>enc_r = [[0xff, 0x80]], enc_length = 2\<rparr>)
   \<and> Encoder_done \<lparr>enc_r = [[0xff, 0x80]], enc_length = 2\<rparr> = [0xff, 0x80]
   \<and> get_length (Buf_init [0xff, 0x80])
       = (Inl ElementTooLarge, \<lparr>data = [0xff, 0x80], pos = 1, end_pos = 2\<rparr>)"
proof -
  have el: "emit_length 128 Encoder_init = Some (Inr (), \<lparr>enc_r = [[0xff, 0x80]], enc_length = 2\<rparr>)"
    by code_simp
  have gl: "get_length (Buf_init [0xff, 0x80])
       = (Inl ElementTooLarge, \<lparr>data = [0xff, 0x80], pos = 1, end_pos = 2\<rparr>)"
    by code_simp
  from length_roundtrip_fails_long_form [of 128] el gl show ?thesis by (simp add: Encoder_done_def)
qed

subsection \<open>Integer round trip\<close>

lemma uint_byte_range: "0 \<le> uint (d::byte) \<and> uint d < 256"
  using uint_lt2p [of d] by simp

lemma sint_byte: "sint (d::byte) = (if uint d < 128 then uint d else uint d - 256)"
proof -
  have s: "sint d = (uint d + 128) mod 256 - 128"
    by (simp add: sint_uint signed_take_bit_eq_take_bit_shift take_bit_eq_mod)
  note rng = uint_byte_range [of d]
  show ?thesis
  proof (cases "uint d < 128")
    case True
    with rng have "(uint d + 128) mod 256 = uint d + 128"
      by (intro mod_pos_pos_trivial) simp_all
    with s True show ?thesis by simp
  next
    case False
    have "uint d + 128 = uint d - 128 + 256" by simp
    then have "(uint d + 128) mod 256 = (uint d - 128 + 256) mod 256" by (rule arg_cong)
    also have "\<dots> = (uint d - 128) mod 256" by (rule mod_add_self2)
    also from False rng have "\<dots> = uint d - 128"
      by (intro mod_pos_pos_trivial) simp_all
    finally show ?thesis using s False by simp
  qed
qed

lemma push_bit_or_byte:
  assumes "0 \<le> v" and "v < 256"
  shows "push_bit 8 (n::int) OR v = n * 256 + v"
proof -
  have v: "v = take_bit 8 v" using assms by (simp add: take_bit_int_eq_self)
  have "push_bit 8 n + v = push_bit 8 n OR v"
  proof (rule disjunctive_add)
    fix k :: nat
    have "bit v k \<Longrightarrow> k < 8" by (subst (asm) v) (simp add: bit_take_bit_iff)
    then show "\<not> bit (push_bit 8 n) k \<or> \<not> bit v k"
      by (auto simp: bit_push_bit_iff_int)
  qed
  then show ?thesis by (simp add: push_bit_eq_mult)
qed

lemma byte_less_iff: "(d::byte) < 0x80 \<longleftrightarrow> uint d < 128"
  by (simp add: word_less_def)

lemma byte_le_iff: "0x80 \<le> (d::byte) \<longleftrightarrow> 128 \<le> uint d"
  by (simp add: word_le_def)

lemma byte_ff_iff: "(d::byte) = 0xff \<longleftrightarrow> uint d = 255"
  by (simp add: word_uint_eq_iff)

lemma byte_0_iff: "(d::byte) = 0 \<longleftrightarrow> uint d = 0"
  by (simp add: uint_0_iff)

lemma be_unsigned_range: "0 \<le> spec_be_unsigned cs \<and> spec_be_unsigned cs < 256 ^ length cs"
proof (induction cs)
  case Nil
  show ?case by simp
next
  case (Cons c cs)
  define p :: int where "p = 256 ^ length cs"
  have p: "0 \<le> p" by (simp add: p_def)
  from uint_byte_range [of c] have "0 \<le> uint c" and "uint c \<le> 255" by simp_all
  with p have "0 \<le> uint c * p" and "uint c * p \<le> 255 * p"
    by (simp_all add: mult_right_mono)
  moreover from Cons have "0 \<le> spec_be_unsigned cs" and "spec_be_unsigned cs < p"
    by (simp_all add: p_def)
  ultimately have "0 \<le> uint c * p + spec_be_unsigned cs \<and> uint c * p + spec_be_unsigned cs < 256 * p"
    by linarith
  then show ?case by (simp add: p_def)
qed

lemma and_128_byte: "0 \<le> v \<Longrightarrow> v < 256 \<Longrightarrow> (v::int) AND 128 = 0 \<longleftrightarrow> v < 128"
proof -
  assume v: "0 \<le> v" "v < 256"
  show ?thesis
  proof (cases "v < 128")
    case True
    with v have "v div 128 = 0" by simp
    with True show ?thesis by (simp add: and_128_eq_0)
  next
    case False
    with v have "v div 128 = 1"
      by (intro int_div_pos_eq [where r = "v - 128"]) simp_all
    with False show ?thesis by (simp add: and_128_eq_0)
  qed
qed


lemma shift_fixed_point: "(n::int) = n div 256 \<longleftrightarrow> n = 0 \<or> n = - 1"
proof
  assume "n = n div 256"
  then have d: "n div 256 = n" by (rule sym)
  have m: "0 \<le> n mod 256" "n mod 256 < 256" by simp_all
  have "n div 256 * 256 + n mod 256 = n" by simp
  then have "n * 256 + n mod 256 = n" by (simp only: d)
  with m show "n = 0 \<or> n = - 1" by linarith
next
  assume "n = 0 \<or> n = - 1"
  then show "n = n div 256" by auto
qed

lemma uint_low_byte: "uint (word_of_int (n AND 255) :: byte) = n mod 256"
  by (simp add: and_255 uint_word_of_int_eq take_bit_eq_mod)

lemma uint_word_mod: "uint (word_of_int (n mod 256) :: byte) = n mod 256"
  by (simp add: uint_word_of_int_eq take_bit_eq_mod)

lemma py_chr_mod: "py_chr (n mod 256) = Inr (word_of_int (n mod 256))"
  by (simp add: py_chr_def)

lemma emit_integer_loop_exit:
  assumes "n = 0 \<or> n = - 1"
    and "N = n * 256 ^ length r + spec_be_unsigned r"
    and "byte = (case r of [] \<Rightarrow> 0x80 | d # ds \<Rightarrow> uint d)"
    and "i = int (length r)"
    and "case r of [] \<Rightarrow> True | d # ds \<Rightarrow> n * 256 + uint d \<noteq> n"
  shows "\<exists>bs. emit_integer_loop n n byte i r = Inr bs \<and> bs \<noteq> []
           \<and> spec_twos_complement bs = N \<and> \<not> spec_redundant_lead bs"
proof (cases r)
  case Nil
  with assms show ?thesis
    by (subst emit_integer_loop.simps) (auto simp: Let_def py_chr_def drop_bit_eq_div)
next
  case (Cons d ds)
  note rng = uint_byte_range [of d]
  have hi: "uint d AND 128 = 0 \<longleftrightarrow> uint d < 128"
    using rng by (simp add: and_128_byte)
  have red: "spec_redundant_lead (d # ds) \<Longrightarrow> uint d = 0 \<or> uint d = 255"
    by (cases ds) (auto simp: byte_0_iff byte_ff_iff)
  from assms(1) show ?thesis
  proof
    assume n: "n = 0"
    show ?thesis
    proof (cases "uint d < 128")
      case True
      with n Cons assms(2-) hi red show ?thesis
        by (subst emit_integer_loop.simps)
           (auto simp: Let_def py_chr_def drop_bit_eq_div sint_byte)
    next
      case False
      with n Cons assms(2-) hi show ?thesis
        by (subst emit_integer_loop.simps)
           (auto simp: Let_def py_chr_def drop_bit_eq_div byte_less_iff)
    qed
  next
    assume n: "n = - 1"
    show ?thesis
    proof (cases "uint d < 128")
      case True
      with n Cons assms(2-) hi show ?thesis
        by (subst emit_integer_loop.simps)
           (auto simp: Let_def py_chr_def drop_bit_eq_div byte_le_iff)
    next
      case False
      with n Cons assms(2-) hi red show ?thesis
        by (subst emit_integer_loop.simps)
           (auto simp: Let_def py_chr_def drop_bit_eq_div sint_byte algebra_simps)
    qed
  qed
qed

lemma emit_integer_loop_correct:
  assumes "n0 = n"
    and "N = n * 256 ^ length r + spec_be_unsigned r"
    and "byte = (case r of [] \<Rightarrow> 0x80 | d # ds \<Rightarrow> uint d)"
    and "i = int (length r)"
    and "case r of [] \<Rightarrow> True | d # ds \<Rightarrow> n * 256 + uint d \<noteq> n"
  shows "\<exists>bs. emit_integer_loop n n0 byte i r = Inr bs \<and> bs \<noteq> []
           \<and> spec_twos_complement bs = N \<and> \<not> spec_redundant_lead bs"
  using assms
proof (induction n n0 byte i r rule: emit_integer_loop.induct)
  case (1 n n0 byte i r)
  show ?case
  proof (cases "n = drop_bit 8 n")
    case True
    then have "n = 0 \<or> n = - 1" by (simp add: drop_bit_eq_div shift_fixed_point)
    from emit_integer_loop_exit [OF this "1.prems"(2-)] "1.prems"(1) show ?thesis by simp
  next
    case False
    let ?c = "word_of_int (n AND 255) :: byte"
    from False "1.prems"(1) have ne: "n0 \<noteq> drop_bit 8 n" by simp
    have N: "N = drop_bit 8 n * 256 ^ length (?c # r) + spec_be_unsigned (?c # r)"
    proof -
      have "n = n div 256 * 256 + n mod 256" by simp
      then have "n * 256 ^ length r
          = n div 256 * (256 * 256 ^ length r) + n mod 256 * 256 ^ length r"
        by (metis distrib_right mult.assoc)
      with "1.prems"(2) show ?thesis by (simp add: drop_bit_eq_div uint_low_byte)
    qed
    have I4: "case ?c # r of [] \<Rightarrow> True | d # ds \<Rightarrow> drop_bit 8 n * 256 + uint d \<noteq> drop_bit 8 n"
      using False by (simp add: uint_low_byte drop_bit_eq_div)
    have "\<exists>bs. emit_integer_loop (drop_bit 8 n) (drop_bit 8 n) (n0 AND 255) (i + 1) (?c # r)
            = Inr bs \<and> bs \<noteq> [] \<and> spec_twos_complement bs = N \<and> \<not> spec_redundant_lead bs"
      using "1.prems"(1,4) I4
      by (intro "1.IH" [OF refl ne refl _ refl N])
         (simp_all add: py_chr_mod uint_word_mod and_255)
    with ne "1.prems"(1) show ?thesis
      by (subst emit_integer_loop.simps) (simp add: py_chr_byte Let_def)
  qed
qed


lemma emit_integer_correct:
  "\<exists>bs. emit_integer n e = (Inr (), emit bs e) \<and> bs \<noteq> []
         \<and> spec_twos_complement bs = n \<and> \<not> spec_redundant_lead bs"
  using emit_integer_loop_correct [of n n n "[]" 128 0]
  by (auto simp: emit_integer_def)

lemma get_integer_loop_reads:
  assumes "Buf_inv b" and "pos b + int k \<le> end_pos b"
  shows "get_integer_loop (int k) acc b =
     (Inr (acc * 256 ^ k + spec_be_unsigned (take k (drop (nat (pos b)) (data b)))),
      b\<lparr>pos := pos b + int k\<rparr>)"
  using assms
proof (induction k arbitrary: acc b)
  case 0
  then show ?case by (simp add: get_integer_loop.simps)
next
  case (Suc k)
  let ?p = "nat (pos b)"
  let ?v = "uint (data b ! ?p)"
  let ?b' = "b\<lparr>pos := pos b + 1\<rparr>"
  from Suc.prems have len: "?p + Suc k \<le> length (data b)" and p: "0 \<le> pos b"
    by (auto simp: Buf_inv_def)
  from Suc.prems have pb: "pop_byte b = (Inr ?v, ?b')"
    by (simp add: pop_byte_inv py_ord_def)
  from Suc.prems have inv': "Buf_inv ?b'" and le': "pos ?b' + int k \<le> end_pos ?b'"
    by (simp_all add: Buf_inv_def)
  have acc: "push_bit 8 acc OR ?v = acc * 256 + ?v"
    using uint_byte_range [of "data b ! ?p"] by (simp add: push_bit_or_byte)
  have p': "nat (pos ?b') = Suc ?p" using p by simp
  have tk: "take (Suc k) (drop ?p (data b)) = data b ! ?p # take k (drop (Suc ?p) (data b))"
    using len by (simp flip: Cons_nth_drop_Suc)
  have lk: "length (take k (drop (Suc ?p) (data b))) = k"
    using len by simp
  have "get_integer_loop (int (Suc k)) acc b = get_integer_loop (int k) (acc * 256 + ?v) ?b'"
    by (subst get_integer_loop.simps) (simp add: pb acc)
  also have "\<dots> = (Inr ((acc * 256 + ?v) * 256 ^ k
        + spec_be_unsigned (take k (drop (Suc ?p) (data b)))), ?b'\<lparr>pos := pos ?b' + int k\<rparr>)"
    using Suc.IH [OF inv' le', of "acc * 256 + ?v"] by (simp only: p') simp
  finally have loop: "get_integer_loop (int (Suc k)) acc b
      = (Inr ((acc * 256 + ?v) * 256 ^ k + spec_be_unsigned (take k (drop (Suc ?p) (data b)))),
         ?b'\<lparr>pos := pos ?b' + int k\<rparr>)" .
  have val: "acc * 256 ^ Suc k + spec_be_unsigned (take (Suc k) (drop ?p (data b)))
      = (acc * 256 + ?v) * 256 ^ k + spec_be_unsigned (take k (drop (Suc ?p) (data b)))"
    by (simp only: tk spec_be_unsigned.simps lk) (simp add: algebra_simps)
  have st: "?b'\<lparr>pos := pos ?b' + int k\<rparr> = b\<lparr>pos := pos b + int (Suc k)\<rparr>"
    by simp
  show ?case by (simp only: loop val st)
qed

lemma Buf_init_inv: "Buf_inv (Buf_init s)"
  by (simp add: Buf_inv_def Buf_init_def)

lemma get_integer_Buf_init:
  "get_integer (int (length (c # cs))) (Buf_init (c # cs)) =
     (if uint c < 128
      then (Inr (Some (spec_be_unsigned (c # cs))), (Buf_init (c # cs))\<lparr>pos := int (length (c # cs))\<rparr>)
      else (Inr None, (Buf_init (c # cs))\<lparr>pos := 1\<rparr>))"
proof -
  let ?b1 = "(Buf_init (c # cs))\<lparr>pos := 1\<rparr>"
  have hi: "uint c AND 128 = 0 \<longleftrightarrow> uint c < 128"
    using uint_byte_range [of c] by (simp add: and_128_byte)
  have inv: "Buf_inv ?b1" and le: "pos ?b1 + int (length cs) \<le> end_pos ?b1"
    by (simp_all add: Buf_inv_def Buf_init_def)
  have "get_integer_loop (int (length cs)) (uint c) ?b1
      = (Inr (spec_be_unsigned (c # cs)), (Buf_init (c # cs))\<lparr>pos := int (length (c # cs))\<rparr>)"
    using get_integer_loop_reads [OF inv le, of "uint c"] by (simp add: Buf_init_def)
  then show ?thesis
    using hi by (simp add: get_integer_def pop_byte_Buf_init_Cons py_ord_def)
qed

lemma twos_complement_sign:
  "spec_twos_complement (c # cs) < 0 \<longleftrightarrow> 128 \<le> uint c"
proof -
  define p :: int where "p = 256 ^ length cs"
  have p: "0 < p" by (simp add: p_def)
  from be_unsigned_range [of cs] have u: "0 \<le> spec_be_unsigned cs" "spec_be_unsigned cs < p"
    by (simp_all add: p_def)
  have tc: "spec_twos_complement (c # cs) = sint c * p + spec_be_unsigned cs"
    by (simp add: p_def)
  show ?thesis
  proof (cases "uint c < 128")
    case True
    with uint_byte_range [of c] p have "0 \<le> sint c * p" by (simp add: sint_byte)
    with True u tc show ?thesis by linarith
  next
    case False
    with uint_byte_range [of c] have "sint c \<le> - 1" by (simp add: sint_byte)
    with p have "sint c * p \<le> - 1 * p" by (intro mult_right_mono) simp_all
    with False u tc show ?thesis by linarith
  qed
qed

lemma twos_complement_nonneg:
  "uint c < 128 \<Longrightarrow> spec_twos_complement (c # cs) = spec_be_unsigned (c # cs)"
  by (simp add: sint_byte)

lemma integer_roundtrip_nonneg:
  assumes "0 \<le> n"
  shows "\<exists>bs. emit_integer n e = (Inr (), emit bs e) \<and> \<not> spec_redundant_lead bs
     \<and> get_integer (int (length bs)) (Buf_init bs)
         = (Inr (Some n), (Buf_init bs)\<lparr>pos := int (length bs)\<rparr>)"
proof -
  from emit_integer_correct [of n e] obtain bs
    where bs: "emit_integer n e = (Inr (), emit bs e)" "bs \<noteq> []"
      "spec_twos_complement bs = n" "\<not> spec_redundant_lead bs"
    by blast
  then obtain c cs where cons: "bs = c # cs" by (cases bs) auto
  with bs(3) assms twos_complement_sign [of c cs] have lo: "uint c < 128" by simp
  with bs(3) cons have "spec_be_unsigned bs = n" by (simp add: sint_byte)
  with lo cons have "get_integer (int (length bs)) (Buf_init bs)
         = (Inr (Some n), (Buf_init bs)\<lparr>pos := int (length bs)\<rparr>)"
    by (simp only: get_integer_Buf_init if_True)
  with bs show ?thesis by blast
qed

text \<open>
  Claim C1 says \<open>get_integer\<close> of what \<open>emit_integer(n)\<close> wrote is \<open>n\<close>, and that no
  leading byte is redundant. \<open>emit_integer\<close> does write the two's complement form of
  \<open>n\<close> with no redundant leading byte, and for \<open>n \<ge> 0\<close> \<open>get_integer\<close> returns \<open>n\<close>
  (lemmas \<open>emit_integer_correct\<close>, \<open>integer_roundtrip_nonneg\<close>). For every \<open>n < 0\<close>
  \<open>get_integer\<close> reads the first of these bytes and returns \<open>None\<close>.
\<close>

theorem integer_roundtrip_fails_negative:
  assumes "n < 0"
  shows "\<exists>bs. emit_integer n e = (Inr (), emit bs e)
     \<and> spec_twos_complement bs = n \<and> \<not> spec_redundant_lead bs
     \<and> get_integer (int (length bs)) (Buf_init bs) = (Inr None, (Buf_init bs)\<lparr>pos := 1\<rparr>)"
proof -
  from emit_integer_correct [of n e] obtain bs
    where bs: "emit_integer n e = (Inr (), emit bs e)" "bs \<noteq> []"
      "spec_twos_complement bs = n" "\<not> spec_redundant_lead bs"
    by blast
  then obtain c cs where cons: "bs = c # cs" by (cases bs) auto
  with bs(3) assms twos_complement_sign [of c cs] have "\<not> uint c < 128" by simp
  with cons have "get_integer (int (length bs)) (Buf_init bs)
      = (Inr None, (Buf_init bs)\<lparr>pos := 1\<rparr>)"
    by (simp only: get_integer_Buf_init if_False)
  with bs show ?thesis by blast
qed

theorem integer_roundtrip_fails_negative_witness:
  "emit_integer (- 1) Encoder_init = (Inr (), emit [0xff] Encoder_init)
   \<and> spec_twos_complement [0xff] = - 1
   \<and> get_integer 1 (Buf_init [0xff]) = (Inr None, \<lparr>data = [0xff], pos = 1, end_pos = 1\<rparr>)"
proof -
  have a: "emit_integer (- 1) Encoder_init = (Inr (), emit [0xff] Encoder_init)"
    by code_simp
  have b: "get_integer 1 (Buf_init [0xff]) = (Inr None, \<lparr>data = [0xff], pos = 1, end_pos = 1\<rparr>)"
    by code_simp
  from integer_roundtrip_fails_negative [of "- 1" Encoder_init] a b show ?thesis by simp
qed

subsection \<open>Constraints on what is not decoded\<close>

lemma get_integer_loop_nonneg:
  "0 \<le> n \<Longrightarrow> get_integer_loop len n b = (Inr r, b') \<Longrightarrow> 0 \<le> r"
proof (induction len n b rule: get_integer_loop.induct)
  case (1 len n b)
  show ?case
  proof (cases "len = 0")
    case True
    with "1.prems" show ?thesis by (simp add: get_integer_loop.simps)
  next
    case False
    obtain res b1 where pb: "pop_byte b = (res, b1)" by (cases "pop_byte b")
    show ?thesis
    proof (cases res)
      case (Inl e)
      with pb False "1.prems"(2) show ?thesis by (simp add: get_integer_loop.simps)
    next
      case (Inr v)
      from pb Inr have pv: "pop_byte b = (Inr v, b1)" by simp
      from pop_byte_range [OF pv] have v: "0 \<le> v" "v < 256" by simp_all
      then have acc: "push_bit 8 n OR v = n * 256 + v" by (rule push_bit_or_byte)
      from "1.prems"(1) v have nn: "0 \<le> push_bit 8 n OR v" by (simp add: acc)
      from "1.prems"(2) False pv
      have "get_integer_loop (len - 1) (push_bit 8 n OR v) b1 = (Inr r, b')"
        by (subst (asm) get_integer_loop.simps) simp
      from "1.IH" [OF False pv [symmetric] refl nn this] show ?thesis .
    qed
  qed
qed

lemma next_INTEGER_nonneg:
  assumes "next_INTEGER min_val max_val b = (Inr (Some v), b')"
  shows "0 \<le> v"
proof -
  from assms obtain len b2 where gi: "get_integer len b2 = (Inr (Some v), b')"
    by (auto simp: next_INTEGER_def split: prod.splits sum.splits if_splits)
  show ?thesis
  proof (cases "len = 0")
    case True
    with gi show ?thesis by (simp add: get_integer_def)
  next
    case False
    with gi obtain n b3 where pb: "pop_byte b2 = (Inr n, b3)"
      and lp: "get_integer_loop (len - 1) n b3 = (Inr v, b')"
      by (auto simp: get_integer_def split: prod.splits sum.splits if_splits)
    from pop_byte_range [OF pb] have "0 \<le> n" by simp
    from get_integer_loop_nonneg [OF this lp] show ?thesis .
  qed
qed

lemma get_integer_high_bit:
  assumes "pop_byte b = (Inr n, b1)" and "0x80 \<le> n" and "len \<noteq> 0"
  shows "get_integer len b = (Inr None, b1)"
proof -
  from pop_byte_range [OF assms(1)] assms(2) have "\<not> n < 128" by simp
  with pop_byte_range [OF assms(1)] have "n AND 0x80 \<noteq> 0" by (simp add: and_128_byte)
  with assms show ?thesis by (simp add: get_integer_def)
qed

lemma get_length_returns_short:
  assumes "get_length b = (Inr len, b')"
  shows "0 \<le> len \<and> len < 0x80"
proof -
  obtain res b1 where pb: "pop_byte b = (res, b1)" by (cases "pop_byte b")
  show ?thesis
  proof (cases res)
    case (Inl e)
    with pb assms show ?thesis by (simp add: get_length_def)
  next
    case (Inr val)
    show ?thesis
    proof (cases "val < 0x80")
      case True
      with pb Inr assms pop_byte_range [of b val b1] show ?thesis
        by (simp add: get_length_def)
    next
      case False
      show ?thesis
      proof (cases "val = 0x80")
        case True
        with pb Inr assms show ?thesis by (simp add: get_length_def)
      next
        case F2: False
        with False have "0x80 < val" by simp
        from get_length_long_fails [OF _ this, of b b1] pb Inr assms show ?thesis by auto
      qed
    qed
  qed
qed

lemma slice_index_diff: "0 \<le> n \<Longrightarrow> slice_index L (i + n) - slice_index L i \<le> nat n"
proof (cases "i < 0")
  case True
  assume n: "0 \<le> n"
  show ?thesis
  proof (cases "i + n < 0")
    case T2: True
    have "nat (i + n + int L) \<le> nat (i + int L) + nat n" using n by linarith
    with True T2 show ?thesis by (simp add: slice_index_def)
  next
    case False
    have "min L (nat (i + n)) \<le> nat n" using True n by linarith
    with True False show ?thesis by (simp add: slice_index_def)
  qed
next
  case False
  assume n: "0 \<le> n"
  then have "\<not> i + n < 0" using False by simp
  moreover have "min L (nat (i + n)) \<le> min L (nat i) + nat n" using False n by linarith
  ultimately show ?thesis using False by (simp add: slice_index_def le_diff_conv add.commute)
qed

lemma length_getslice: "0 \<le> n \<Longrightarrow> length (getslice s i (i + n)) \<le> nat n"
proof -
  assume n: "0 \<le> n"
  have "length (getslice s i (i + n)) \<le> slice_index (length s) (i + n) - slice_index (length s) i"
    by (simp add: getslice_def Let_def)
  with slice_index_diff [OF n, of "length s" i] show ?thesis by linarith
qed

lemma next_OCTET_STRING_short:
  assumes "next_OCTET_STRING min_size max_size b = (Inr s, b')"
  shows "length s < 128"
proof -
  from assms obtain b1 b2 len where gl: "get_length b1 = (Inr len, b2)"
    and pb: "pop_bytes len b2 = (Inr s, b')"
    by (auto simp: next_OCTET_STRING_def split: prod.splits sum.splits if_splits)
  from get_length_returns_short [OF gl] have len: "0 \<le> len" "len < 128" by simp_all
  from pb have "s = getslice (data b2) (pos b2) (pos b2 + len)"
    by (auto simp: pop_bytes_def split: if_splits)
  with length_getslice [OF len(1), of "data b2" "pos b2"] len(2) show ?thesis by simp
qed

text \<open>
  Claim C8 says \<open>next_INTEGER\<close> and \<open>next_OCTET_STRING\<close> raise ConstraintViolation when
  the decoded value (the decoded length) is outside a bound that is given, and return
  a value that equals a bound. On an INTEGER whose first content byte has its high
  bit set, a negative one, the code does neither: \<open>get_integer\<close> returns \<open>None\<close>, so
  \<open>next_INTEGER\<close> raises ConstraintViolation whenever a minimum is given, whatever the
  minimum and the bytes, and returns \<open>None\<close> when none is given, whatever the maximum.
\<close>

theorem next_INTEGER_negative_content:
  assumes "check TAG_INTEGER b = (Inr (), b1)"
    and "get_length b1 = (Inr len, b2)" and "len \<noteq> 0"
    and "pop_byte b2 = (Inr n, b3)" and "0x80 \<le> n"
  shows "next_INTEGER min_val max_val b =
     (case min_val of None \<Rightarrow> (Inr None, b3) | Some m \<Rightarrow> (Inl ConstraintViolation, b3))"
  using assms(1,2) get_integer_high_bit [OF assms(4,5,3)]
  by (simp add: next_INTEGER_def py2_less_def py2_greater_def split: option.splits)

theorem next_INTEGER_negative_content_witness:
  "next_INTEGER (Some (- 1)) (Some (- 1)) (Buf_init [0x02, 0x01, 0xff])
     = (Inl ConstraintViolation, \<lparr>data = [0x02, 0x01, 0xff], pos = 3, end_pos = 3\<rparr>)
   \<and> next_INTEGER None (Some (- 5)) (Buf_init [0x02, 0x01, 0xff])
     = (Inr None, \<lparr>data = [0x02, 0x01, 0xff], pos = 3, end_pos = 3\<rparr>)"
proof -
  have c: "check TAG_INTEGER (Buf_init [0x02, 0x01, 0xff])
      = (Inr (), \<lparr>data = [0x02, 0x01, 0xff], pos = 1, end_pos = 3\<rparr>)"
    by code_simp
  have g: "get_length \<lparr>data = [0x02, 0x01, 0xff], pos = 1, end_pos = 3\<rparr>
      = (Inr 1, \<lparr>data = [0x02, 0x01, 0xff], pos = 2, end_pos = 3\<rparr>)"
    by code_simp
  have p: "pop_byte \<lparr>data = [0x02, 0x01, 0xff], pos = 2, end_pos = 3\<rparr>
      = (Inr 0xff, \<lparr>data = [0x02, 0x01, 0xff], pos = 3, end_pos = 3\<rparr>)"
    by code_simp
  from next_INTEGER_negative_content [OF c g _ p, of "Some (- 1)" "Some (- 1)"]
    next_INTEGER_negative_content [OF c g _ p, of None "Some (- 5)"]
  show ?thesis by simp
qed

end
